theory Spec2Isabelle
  imports Main "HOL-Library.Word" "HOL-Library.Sublist"
begin

section \<open>Data model of the websockets plugin\<close>

text \<open>
  The development embeds \<^verbatim>\<open>plugins/websockets/plugin.go\<close>. The plugin talks to
  collaborators that live in other packages (brokers, the access validator, the
  websocket upgrader, the executor, the logger). Each call to a collaborator is recorded
  as an event, and what the collaborator answers is an input of the model: a broker is a
  pair of functions on an abstract world \<open>'w\<close>, the answers of the per-request
  collaborators are the fields of a record. The plugin's mutex \<^verbatim>\<open>p.mu\<close> has no effect on
  a sequential run and is not modelled.
\<close>

text \<open>
  A Go \<^verbatim>\<open>error\<close> value. \<^verbatim>\<open>errors.E(err)\<close> of \<^verbatim>\<open>github.com/spiral/errors\<close> wraps the
  error it is given; the wrapper is the constructor \<open>errors_E\<close>. A nil error is \<open>None\<close>
  of \<open>error option\<close>.
\<close>

datatype error = Err string | errors_E error

text \<open>
  Modelled from the spec: \<^verbatim>\<open>pubsub.Message\<close> (the declaration is not part of the
  sources at hand): broker key, ordered topic names, payload bytes. The plugin reads
  \<^verbatim>\<open>Broker\<close> and \<^verbatim>\<open>Topics\<close> only. A batch \<^verbatim>\<open>[]*pubsub.Message\<close> is a list of messages;
  its entries are taken to be non-nil pointers.
\<close>

record Message =
  Broker :: string
  Topics :: "string list"
  Payload :: string

text \<open>
  The \<^verbatim>\<open>pubsub.PubSub\<close> interface as the plugin uses it: \<^verbatim>\<open>Publish(msg) error\<close> and
  \<^verbatim>\<open>Next() (data, error)\<close>. Both act on the world outside the plugin.
\<close>

record 'w PubSub =
  ps_Publish :: "Message list \<Rightarrow> 'w \<Rightarrow> error option \<times> 'w"
  ps_Next :: "'w \<Rightarrow> (error + Message) \<times> 'w"

text \<open>A transport handle (the upgraded websocket connection wrapped by \<^verbatim>\<open>NewConnection\<close>).\<close>

type_synonym conn = nat

text \<open>
  Modelled from the spec: \<^verbatim>\<open>pool.WorkersPool\<close> (package \<^verbatim>\<open>pool\<close> is not part of the
  sources at hand): a pool of workers that is either running or stopped.
\<close>

datatype WorkersPool = PoolRunning | PoolStopped

text \<open>
  Modelled from the spec: \<^verbatim>\<open>WorkersPool.Stop\<close>, which is missing with its package: once
  stopped, the pool stops accepting new queue items and exits its workers. The spec
  gives it no other effect; in particular it closes no connection.
\<close>

definition WorkersPool_Stop :: "WorkersPool \<Rightarrow> WorkersPool" where
  "WorkersPool_Stop wp = PoolStopped"

text \<open>
  The \<^verbatim>\<open>Plugin\<close> struct, with the fields that the methods below read or write: the
  broker map, the configured path (\<^verbatim>\<open>Config.Path\<close>), the connection registry (a
  \<^verbatim>\<open>sync.Map\<close> from connection id to connection), the worker pool and the stopped
  counter (a \<^verbatim>\<open>uint64\<close>).
\<close>

record 'w Plugin =
  pubsubs :: "string \<rightharpoonup> 'w PubSub"
  Config_Path :: string
  connections :: "string \<rightharpoonup> conn"
  workersPool :: WorkersPool
  stopped :: "64 word"

text \<open>Every call the plugin makes to a collaborator, with the collaborator's answer
  where the plugin branches on it.\<close>

datatype event =
    BrokerPublish string "Message list" "error option"
  | LogWarn_no_such_broker string
  | LogError_publish_async error
  | BrokerNext "error + Message"
  | PoolQueue Message
  | ErrChSend error
  | PoolStop
  | NextServeHTTP
  | AttributesInit
  | AssertServerAccess
  | AccessCopy string
  | WriteHeader nat
  | Upgrade
  | HttpError error nat
  | NewConnection conn
  | ConnectionsStore string conn
  | NewExecutor string
  | LogInfo_connected string
  | StartCommandLoop string
  | LogError_command_loop error
  | ExecutorCleanUp string
  | ConnectionsDelete string
  | ConnClose conn
  | LogError_connection_close error

section \<open>Publish\<close>

text \<open>
  \<^verbatim>\<open>Plugin.Publish\<close>. The inner loop runs once per topic of \<^verbatim>\<open>msg[i]\<close> and does not look
  at the topic; the outer loop runs over the batch. A \<^verbatim>\<open>return errors.E(err)\<close> inside the
  loops leaves the function, so a \<open>Some\<close> result of the inner loop ends the outer one.
  The result is the returned error, the events in order, and the world afterwards.
\<close>

fun Publish_topics ::
  "'w Plugin \<Rightarrow> Message list \<Rightarrow> Message \<Rightarrow> string list \<Rightarrow> 'w \<Rightarrow> error option \<times> event list \<times> 'w"
where
  "Publish_topics p msg m [] w = (None, [], w)"
| "Publish_topics p msg m (t # ts) w =
     (case pubsubs p (Broker m) of
        Some br \<Rightarrow>
          (case ps_Publish br msg w of
             (Some err, w') \<Rightarrow>
               (Some (errors_E err), [BrokerPublish (Broker m) msg (Some err)], w')
           | (None, w') \<Rightarrow>
               (case Publish_topics p msg m ts w' of
                  (r, tr, w'') \<Rightarrow> (r, BrokerPublish (Broker m) msg None # tr, w'')))
      | None \<Rightarrow>
          (case Publish_topics p msg m ts w of
             (r, tr, w'') \<Rightarrow> (r, LogWarn_no_such_broker (Broker m) # tr, w'')))"

fun Publish_msgs ::
  "'w Plugin \<Rightarrow> Message list \<Rightarrow> Message list \<Rightarrow> 'w \<Rightarrow> error option \<times> event list \<times> 'w"
where
  "Publish_msgs p msg [] w = (None, [], w)"
| "Publish_msgs p msg (m # ms) w =
     (case Publish_topics p msg m (Topics m) w of
        (Some e, tr, w') \<Rightarrow> (Some e, tr, w')
      | (None, tr, w') \<Rightarrow>
          (case Publish_msgs p msg ms w' of
             (r, tr', w'') \<Rightarrow> (r, tr @ tr', w'')))"

definition Publish ::
  "'w Plugin \<Rightarrow> Message list \<Rightarrow> 'w \<Rightarrow> error option \<times> event list \<times> 'w"
where
  "Publish p msg w = Publish_msgs p msg msg w"

text \<open>A broker publish that returned an error.\<close>

fun failed :: "event \<Rightarrow> bool" where
  "failed (BrokerPublish k b (Some e)) = True"
| "failed ev = False"

text \<open>
  The shape of a run that stops at the first failing broker publish: with a nil result no
  call in the trace failed; with an error result the trace ends with the failed call on
  the batch, no call before it failed, and the result is that call's error in the
  \<^verbatim>\<open>errors.E\<close> wrapper.
\<close>

definition ends_at_first_error :: "Message list \<Rightarrow> error option \<Rightarrow> event list \<Rightarrow> bool" where
  "ends_at_first_error msg r tr =
     (case r of
        None \<Rightarrow> (\<forall>ev\<in>set tr. \<not> failed ev)
      | Some e \<Rightarrow>
          (\<exists>pre k err. tr = pre @ [BrokerPublish k msg (Some err)] \<and> e = errors_E err \<and>
             (\<forall>ev\<in>set pre. \<not> failed ev)))"

text \<open>
  The broker key of every (message, topic) pair of a list of messages, in the order in
  which the two loops visit the pairs; and the keys among them that are registered.
\<close>

definition pair_keys :: "Message list \<Rightarrow> string list" where
  "pair_keys ms = concat (map (\<lambda>m. replicate (length (Topics m)) (Broker m)) ms)"

definition registered_keys :: "'w Plugin \<Rightarrow> string list \<Rightarrow> string list" where
  "registered_keys p ks = filter (\<lambda>k. pubsubs p k \<noteq> None) ks"

text \<open>The broker publishes of a trace, in order: the key and the batch of each.\<close>

fun publish_calls :: "event list \<Rightarrow> (string \<times> Message list) list" where
  "publish_calls [] = []"
| "publish_calls (BrokerPublish k b out # tr) = (k, b) # publish_calls tr"
| "publish_calls (ev # tr) = publish_calls tr"

text \<open>
  A trace tells what the brokers really did: made in order from the world \<open>w\<close>, each
  broker publish of the trace goes to a registered broker, gets from it the answer that
  the trace records, and the world after the last of them is \<open>w'\<close>. Events that are not
  broker publishes leave the world alone.
\<close>

fun replays :: "'w Plugin \<Rightarrow> event list \<Rightarrow> 'w \<Rightarrow> 'w \<Rightarrow> bool" where
  "replays p [] w w' = (w = w')"
| "replays p (BrokerPublish k b out # tr) w w' =
     (case pubsubs p k of
        None \<Rightarrow> False
      | Some br \<Rightarrow>
          (case ps_Publish br b w of (out', w1) \<Rightarrow> out' = out \<and> replays p tr w1 w'))"
| "replays p (ev # tr) w w' = replays p tr w w'"

section \<open>PublishAsync\<close>

text \<open>
  How a run of the goroutine's loops ends: the loop ran to its end, a \<^verbatim>\<open>return\<close>
  was executed, or the goroutine panicked.
\<close>

datatype flow = Fallthrough | Returned | Panicked

text \<open>
  The body of the goroutine that \<^verbatim>\<open>Plugin.PublishAsync\<close> starts. The lookup
  \<^verbatim>\<open>p.pubsubs[msg[i].Broker]\<close> has no \<^verbatim>\<open>ok\<close> test: for a key that is not in the map it
  yields the nil interface, and the method call on it panics (nil dereference) before
  anything is logged.
\<close>

fun PublishAsync_topics ::
  "'w Plugin \<Rightarrow> Message list \<Rightarrow> Message \<Rightarrow> string list \<Rightarrow> 'w \<Rightarrow> flow \<times> event list \<times> 'w"
where
  "PublishAsync_topics p msg m [] w = (Fallthrough, [], w)"
| "PublishAsync_topics p msg m (t # ts) w =
     (case pubsubs p (Broker m) of
        None \<Rightarrow> (Panicked, [], w)
      | Some br \<Rightarrow>
          (case ps_Publish br msg w of
             (Some err, w') \<Rightarrow>
               (Returned,
                [BrokerPublish (Broker m) msg (Some err), LogError_publish_async err], w')
           | (None, w') \<Rightarrow>
               (case PublishAsync_topics p msg m ts w' of
                  (r, tr, w'') \<Rightarrow> (r, BrokerPublish (Broker m) msg None # tr, w''))))"

fun PublishAsync_msgs ::
  "'w Plugin \<Rightarrow> Message list \<Rightarrow> Message list \<Rightarrow> 'w \<Rightarrow> flow \<times> event list \<times> 'w"
where
  "PublishAsync_msgs p msg [] w = (Fallthrough, [], w)"
| "PublishAsync_msgs p msg (m # ms) w =
     (case PublishAsync_topics p msg m (Topics m) w of
        (Fallthrough, tr, w') \<Rightarrow>
          (case PublishAsync_msgs p msg ms w' of
             (r, tr', w'') \<Rightarrow> (r, tr @ tr', w''))
      | (r, tr, w') \<Rightarrow> (r, tr, w'))"

definition PublishAsync_go ::
  "'w Plugin \<Rightarrow> Message list \<Rightarrow> 'w \<Rightarrow> flow \<times> event list \<times> 'w"
where
  "PublishAsync_go p msg w = PublishAsync_msgs p msg msg w"


text \<open>
  The shape of a run of the goroutine: if it ended by \<^verbatim>\<open>return\<close>, the trace ends with a
  failed broker publish on the batch followed by the log entry of that same error, and
  no call before failed; if it ended otherwise, no call failed.
\<close>

definition logs_first_error :: "Message list \<Rightarrow> flow \<Rightarrow> event list \<Rightarrow> bool" where
  "logs_first_error msg fl tr =
     (case fl of
        Returned \<Rightarrow>
          (\<exists>pre k err.
             tr = pre @ [BrokerPublish k msg (Some err), LogError_publish_async err] \<and>
             (\<forall>ev\<in>set pre. \<not> failed ev))
      | _ \<Rightarrow> (\<forall>ev\<in>set tr. \<not> failed ev))"

section \<open>Serve\<close>

text \<open>
  The receive loop that \<^verbatim>\<open>Plugin.Serve\<close> starts for one broker: \<^verbatim>\<open>for { data, err :=
  ps.Next(); if err != nil { errCh <- err; return }; p.workersPool.Queue(data) }\<close>.
  The loop has no exit but the error, so it may run forever: not returning is \<open>None\<close>.
  \<open>tr\<close> holds the events so far.
\<close>

partial_function (option) receive_loop ::
  "'w PubSub \<Rightarrow> event list \<Rightarrow> 'w \<Rightarrow> (event list \<times> 'w) option"
where
  "receive_loop ps tr w =
     (case ps_Next ps w of
        (Inl err, w') \<Rightarrow> Some (tr @ [BrokerNext (Inl err), ErrChSend err], w')
      | (Inr data, w') \<Rightarrow> receive_loop ps (tr @ [BrokerNext (Inr data), PoolQueue data]) w')"

text \<open>
  \<^verbatim>\<open>Plugin.Serve\<close> makes one error channel and starts one receive loop per entry of
  \<^verbatim>\<open>p.pubsubs\<close>; every loop sends to that same channel (\<open>ErrChSend\<close>). The model gives
  the loops started, by broker key.
\<close>

definition Serve :: "'w Plugin \<Rightarrow> string \<rightharpoonup> ('w \<Rightarrow> (event list \<times> 'w) option)" where
  "Serve p = (\<lambda>k. map_option (\<lambda>ps. receive_loop ps []) (pubsubs p k))"

text \<open>The world after \<open>n\<close> calls of a broker's \<^verbatim>\<open>Next\<close>, and the answer to the next call.\<close>

fun Next_world :: "'w PubSub \<Rightarrow> nat \<Rightarrow> 'w \<Rightarrow> 'w" where
  "Next_world ps 0 w = w"
| "Next_world ps (Suc n) w = Next_world ps n (snd (ps_Next ps w))"

definition Next_answer :: "'w PubSub \<Rightarrow> nat \<Rightarrow> 'w \<Rightarrow> error + Message" where
  "Next_answer ps n w = fst (ps_Next ps (Next_world ps n w))"

text \<open>The events of a loop iteration that received \<open>a\<close>.\<close>

fun received :: "error + Message \<Rightarrow> event list" where
  "received (Inl err) = [BrokerNext (Inl err), ErrChSend err]"
| "received (Inr data) = [BrokerNext (Inr data), PoolQueue data]"

section \<open>Stop\<close>

text \<open>\<^verbatim>\<open>atomic.AddUint64\<close> and \<^verbatim>\<open>atomic.CompareAndSwapUint64\<close> on the value of the
  addressed cell: the new value (and, for the swap, whether it happened).\<close>

definition AddUint64 :: "64 word \<Rightarrow> 64 word \<Rightarrow> 64 word" where
  "AddUint64 v delta = v + delta"

definition CompareAndSwapUint64 :: "64 word \<Rightarrow> 64 word \<Rightarrow> 64 word \<Rightarrow> bool \<times> 64 word" where
  "CompareAndSwapUint64 v old new = (if v = old then (True, new) else (False, v))"

text \<open>\<^verbatim>\<open>Plugin.Stop\<close>: the returned error, the events, the plugin afterwards.\<close>

definition Stop :: "'w Plugin \<Rightarrow> error option \<times> event list \<times> 'w Plugin" where
  "Stop p =
     (None, [PoolStop],
      p\<lparr>stopped := AddUint64 (stopped p) 1,
        workersPool := WorkersPool_Stop (workersPool p)\<rparr>)"

text \<open>\<open>n\<close> calls of Stop, one after the other.\<close>

fun Stop_times :: "nat \<Rightarrow> 'w Plugin \<Rightarrow> 'w Plugin" where
  "Stop_times 0 p = p"
| "Stop_times (Suc n) p = Stop_times n (snd (snd (Stop p)))"

text \<open>\<^verbatim>\<open>Plugin.Init\<close> as far as the plugin's own fields go: no broker yet, no connection,
  a running pool, \<^verbatim>\<open>p.stopped = 0\<close>.\<close>

definition Init :: "string \<Rightarrow> 'w Plugin" where
  "Init path =
     \<lparr>pubsubs = Map.empty, Config_Path = path, connections = Map.empty,
      workersPool = PoolRunning, stopped = 0\<rparr>"

section \<open>Middleware\<close>

text \<open>
  What \<^verbatim>\<open>AssertServerAccess\<close> returns: nil, the \<^verbatim>\<open>*validator.AccessValidator\<close> itself (the
  access was denied; it carries the response for the client), or another error.
\<close>

datatype access = AccessGranted | AccessValidatorError string | AccessOtherError error

datatype upgrade_result = Upgraded conn | UpgradeFailed error

text \<open>One request with the answers of the collaborators that the handler asks.\<close>

record request =
  URL_Path :: string
  access_answer :: access
  upgrade_answer :: upgrade_result
  new_uuid :: string
  command_loop_answer :: "error option"
  close_answer :: "error option"

text \<open>
  The access check of the handler, lines 133 to 142: the events, and whether the handler
  goes on. Only the \<^verbatim>\<open>else\<close> branch has a \<^verbatim>\<open>return\<close>.
\<close>

fun check_access :: "access \<Rightarrow> event list \<times> bool" where
  "check_access AccessGranted = ([], True)"
| "check_access (AccessValidatorError av) = ([AccessCopy av], True)"
| "check_access (AccessOtherError e) = ([WriteHeader 400], False)"

text \<open>
  Deferred calls. Go runs them when the handler returns, last registered first: the
  stack is a list whose head is the last \<^verbatim>\<open>defer\<close>.
\<close>

datatype deferred = DeferClose conn | DeferDelete string | DeferCleanUp string

fun run_deferred :: "request \<Rightarrow> deferred \<Rightarrow> 'w Plugin \<Rightarrow> event list \<times> 'w Plugin" where
  "run_deferred r (DeferClose c) p =
     (ConnClose c #
        (case close_answer r of Some e \<Rightarrow> [LogError_connection_close e] | None \<Rightarrow> []), p)"
| "run_deferred r (DeferDelete cid) p =
     ([ConnectionsDelete cid], p\<lparr>connections := (connections p)(cid := None)\<rparr>)"
| "run_deferred r (DeferCleanUp cid) p = ([ExecutorCleanUp cid], p)"

fun run_defers :: "request \<Rightarrow> deferred list \<Rightarrow> 'w Plugin \<Rightarrow> event list \<times> 'w Plugin" where
  "run_defers r [] p = ([], p)"
| "run_defers r (d # ds) p =
     (case run_deferred r d p of
        (tr, p') \<Rightarrow> (case run_defers r ds p' of (tr', p'') \<Rightarrow> (tr @ tr', p'')))"

text \<open>The handler from the successful upgrade on, lines 163 to 195.\<close>

definition serve_connection :: "'w Plugin \<Rightarrow> request \<Rightarrow> conn \<Rightarrow> event list \<times> 'w Plugin" where
  "serve_connection p r c =
     (let defers1 = [DeferClose c];
          connectionID = new_uuid r;
          p1 = p\<lparr>connections := (connections p)(connectionID \<mapsto> c)\<rparr>;
          defers2 = DeferDelete connectionID # defers1;
          defers3 = DeferCleanUp connectionID # defers2;
          body =
            [NewConnection c, ConnectionsStore connectionID c, NewExecutor connectionID,
             LogInfo_connected connectionID, StartCommandLoop connectionID] @
            (case command_loop_answer r of
               Some e \<Rightarrow> [LogError_command_loop e] | None \<Rightarrow> [])
      in case run_defers r defers3 p1 of (tr, p2) \<Rightarrow> (body @ tr, p2))"

text \<open>The handler that \<^verbatim>\<open>Plugin.Middleware\<close> returns: the events and the plugin
  afterwards.\<close>

definition Middleware :: "'w Plugin \<Rightarrow> request \<Rightarrow> event list \<times> 'w Plugin" where
  "Middleware p r =
     (if URL_Path r \<noteq> Config_Path p then ([NextServeHTTP], p)
      else
        (case CompareAndSwapUint64 (stopped p) 1 1 of
           (True, v) \<Rightarrow> ([], p\<lparr>stopped := v\<rparr>)
         | (False, v) \<Rightarrow>
             (let p0 = p\<lparr>stopped := v\<rparr> in
              case check_access (access_answer r) of
                (tr1, False) \<Rightarrow> (AttributesInit # AssertServerAccess # tr1, p0)
              | (tr1, True) \<Rightarrow>
                  (case upgrade_answer r of
                     UpgradeFailed e \<Rightarrow>
                       (AttributesInit # AssertServerAccess # tr1 @ [Upgrade, HttpError e 500], p0)
                   | Upgraded c \<Rightarrow>
                       (case serve_connection p0 r c of
                          (tr2, p') \<Rightarrow>
                            (AttributesInit # AssertServerAccess # tr1 @ Upgrade # tr2, p'))))))"

text \<open>
  A request that gets as far as a served connection: it is on the configured path, it
  passes the stopped gate, the access check lets the handler go on, and the upgrade
  gives the connection \<open>c\<close>.
\<close>

definition served :: "'w Plugin \<Rightarrow> request \<Rightarrow> conn \<Rightarrow> bool" where
  "served p r c =
     (URL_Path r = Config_Path p \<and> stopped p \<noteq> 1 \<and> snd (check_access (access_answer r)) \<and>
      upgrade_answer r = Upgraded c)"

text \<open>The three calls of the cleanup sequence.\<close>

fun is_cleanup :: "event \<Rightarrow> bool" where
  "is_cleanup (ExecutorCleanUp cid) = True"
| "is_cleanup (ConnectionsDelete cid) = True"
| "is_cleanup (ConnClose c) = True"
| "is_cleanup ev = False"

section \<open>Example inputs\<close>

text \<open>Brokers over a world that counts the publish calls: one that accepts every
  publish, one that refuses the second call it sees, one that refuses all. The first
  delivers two messages and then fails.\<close>

definition order_msg :: Message where
  "order_msg = \<lparr>Broker = ''memory'', Topics = [''orders'', ''audit''], Payload = ''X''\<rparr>"

definition ship_msg :: Message where
  "ship_msg = \<lparr>Broker = ''redis'', Topics = [''shipping''], Payload = ''Y''\<rparr>"

definition stray_msg :: Message where
  "stray_msg = \<lparr>Broker = ''kafka'', Topics = [''orders''], Payload = ''Z''\<rparr>"

definition silent_msg :: Message where
  "silent_msg = \<lparr>Broker = ''kafka'', Topics = [], Payload = ''Z''\<rparr>"

definition memory_broker :: "nat PubSub" where
  "memory_broker =
     \<lparr>ps_Publish = (\<lambda>b w. (None, Suc w)),
      ps_Next = (\<lambda>w. (if w = 0 then Inr order_msg else if w = 1 then Inr ship_msg
                       else Inl (Err ''closed''), Suc w))\<rparr>"

definition redis_broker :: "nat PubSub" where
  "redis_broker =
     \<lparr>ps_Publish = (\<lambda>b w. (if w = 1 then Some (Err ''down'') else None, Suc w)),
      ps_Next = (\<lambda>w. (Inl (Err ''closed''), Suc w))\<rparr>"

definition hub :: "nat Plugin" where
  "hub =
     \<lparr>pubsubs = [''memory'' \<mapsto> memory_broker, ''redis'' \<mapsto> redis_broker],
      Config_Path = ''/ws'',
      connections = [''c1'' \<mapsto> 7],
      workersPool = PoolRunning,
      stopped = 0\<rparr>"

definition denied_request :: request where
  "denied_request =
     \<lparr>URL_Path = ''/ws'', access_answer = AccessValidatorError ''403 forbidden'',
      upgrade_answer = Upgraded 8, new_uuid = ''c2'',
      command_loop_answer = None, close_answer = None\<rparr>"

definition granted_request :: request where
  "granted_request =
     \<lparr>URL_Path = ''/ws'', access_answer = AccessGranted,
      upgrade_answer = Upgraded 8, new_uuid = ''c2'',
      command_loop_answer = Some (Err ''read error''), close_answer = None\<rparr>"

section \<open>Properties of Publish\<close>

subsection \<open>Traces and what the brokers did\<close>

lemma replays_append:
  "replays p tr1 w w1 \<Longrightarrow> replays p tr2 w1 w2 \<Longrightarrow> replays p (tr1 @ tr2) w w2"
  by (induction p tr1 w w1 rule: replays.induct) (auto split: option.splits prod.splits)

lemma replays_append_split:
  "replays p (tr1 @ tr2) w w' \<Longrightarrow> \<exists>w1. replays p tr1 w w1 \<and> replays p tr2 w1 w'"
  by (induction p tr1 w w' rule: replays.induct) (auto split: option.splits prod.splits)

lemma publish_calls_append:
  "publish_calls (tr1 @ tr2) = publish_calls tr1 @ publish_calls tr2"
  by (induction tr1 rule: publish_calls.induct) simp_all

lemma Publish_topics_replays:
  "Publish_topics p msg m ts w = (r, tr, w') \<Longrightarrow> replays p tr w w'"
proof (induction ts arbitrary: w r tr w')
  case Nil
  then show ?case by simp
next
  case (Cons t ts)
  show ?case
  proof (cases "pubsubs p (Broker m)")
    case None
    with Cons.prems obtain tr0 where run: "Publish_topics p msg m ts w = (r, tr0, w')"
      and tr: "tr = LogWarn_no_such_broker (Broker m) # tr0"
      by (auto split: prod.splits)
    from Cons.IH [OF run] show ?thesis by (simp add: tr)
  next
    case (Some br)
    obtain o1 w1 where pw: "ps_Publish br msg w = (o1, w1)"
      by (cases "ps_Publish br msg w") auto
    show ?thesis
    proof (cases o1)
      case None
      with Cons.prems Some pw obtain tr0 where run: "Publish_topics p msg m ts w1 = (r, tr0, w')"
        and tr: "tr = BrokerPublish (Broker m) msg None # tr0"
        by (auto split: prod.splits)
      from Cons.IH [OF run] show ?thesis
        by (simp add: tr \<open>pubsubs p (Broker m) = Some br\<close> pw None)
    next
      case (Some err)
      with Cons.prems \<open>pubsubs p (Broker m) = Some br\<close> pw show ?thesis
        by auto
    qed
  qed
qed

lemma Publish_msgs_replays:
  "Publish_msgs p msg ms w = (r, tr, w') \<Longrightarrow> replays p tr w w'"
proof (induction ms arbitrary: w r tr w')
  case Nil
  then show ?case by simp
next
  case (Cons m ms)
  obtain r1 tr1 w1 where pt: "Publish_topics p msg m (Topics m) w = (r1, tr1, w1)"
    by (cases "Publish_topics p msg m (Topics m) w") auto
  note first = Publish_topics_replays [OF pt]
  show ?case
  proof (cases r1)
    case None
    with Cons.prems pt obtain tr2 where run: "Publish_msgs p msg ms w1 = (r, tr2, w')"
      and tr: "tr = tr1 @ tr2"
      by (auto split: prod.splits)
    from replays_append [OF first Cons.IH [OF run]] show ?thesis by (simp add: tr)
  next
    case (Some e)
    with Cons.prems pt first show ?thesis by auto
  qed
qed

lemma Publish_msgs_append:
  "Publish_msgs p msg (xs @ ys) w =
     (case Publish_msgs p msg xs w of
        (Some e, tr, w') \<Rightarrow> (Some e, tr, w')
      | (None, tr, w') \<Rightarrow>
          (case Publish_msgs p msg ys w' of (r, tr', w'') \<Rightarrow> (r, tr @ tr', w'')))"
  by (induction xs arbitrary: w) (auto split: prod.splits option.splits)

subsection \<open>One call per message and topic\<close>

lemma Publish_topics_run_ok:
  "replays p (map (\<lambda>k. BrokerPublish k msg None) (replicate (length ts) (Broker m))) w w' \<Longrightarrow>
   Publish_topics p msg m ts w =
     (None, map (\<lambda>k. BrokerPublish k msg None) (replicate (length ts) (Broker m)), w')"
  by (induction ts arbitrary: w) (auto split: option.splits prod.splits)

lemma Publish_msgs_run_ok:
  "replays p (map (\<lambda>k. BrokerPublish k msg None) (pair_keys ms)) w w' \<Longrightarrow>
   Publish_msgs p msg ms w = (None, map (\<lambda>k. BrokerPublish k msg None) (pair_keys ms), w')"
proof (induction ms arbitrary: w)
  case Nil
  then show ?case by (simp add: pair_keys_def)
next
  case (Cons m ms)
  have keys: "pair_keys (m # ms) = replicate (length (Topics m)) (Broker m) @ pair_keys ms"
    by (simp add: pair_keys_def)
  from Cons.prems obtain w1 where
    first: "replays p (map (\<lambda>k. BrokerPublish k msg None) (replicate (length (Topics m)) (Broker m))) w w1"
    and rest: "replays p (map (\<lambda>k. BrokerPublish k msg None) (pair_keys ms)) w1 w'"
    unfolding keys map_append by (blast dest: replays_append_split)
  from Publish_topics_run_ok [OF first] Cons.IH [OF rest] show ?case
    by (simp add: keys)
qed

text \<open>
  C4. Take any batch, plugin and world in which the brokers named by the (message,
  topic) pairs of the batch, called pair by pair in batch order with the whole batch,
  are all registered and all answer nil (that is the hypothesis: the expected calls
  replay from \<open>w\<close> to \<open>w'\<close>). Then Publish returns nil, its calls are exactly these, one
  per (message, topic) pair and each with the whole batch \<open>msg\<close>, and it leaves the world
  that these calls leave. (The batch may be empty: then there is no call.)
\<close>

theorem Publish_once_per_pair_whole_batch:
  assumes "replays p (map (\<lambda>k. BrokerPublish k msg None) (pair_keys msg)) w w'"
  shows "Publish p msg w = (None, map (\<lambda>k. BrokerPublish k msg None) (pair_keys msg), w')"
  using Publish_msgs_run_ok [OF assms] by (simp add: Publish_def)

theorem Publish_once_per_pair_whole_batch_witness:
  "Publish hub [order_msg, ship_msg] 0 =
     (None,
      [BrokerPublish ''memory'' [order_msg, ship_msg] None,
       BrokerPublish ''memory'' [order_msg, ship_msg] None,
       BrokerPublish ''redis'' [order_msg, ship_msg] None], 3)"
proof -
  have keys: "pair_keys [order_msg, ship_msg] = [''memory'', ''memory'', ''redis'']"
    by (simp add: pair_keys_def order_msg_def ship_msg_def)
  have all_answer_nil:
    "replays hub (map (\<lambda>k. BrokerPublish k [order_msg, ship_msg] None)
       (pair_keys [order_msg, ship_msg])) 0 3"
    unfolding keys by (simp add: hub_def memory_broker_def redis_broker_def)
  from Publish_once_per_pair_whole_batch [OF all_answer_nil]
  show ?thesis by (simp add: keys)
qed

subsection \<open>The first error ends the run\<close>

lemma ends_Cons:
  "\<not> failed ev \<Longrightarrow> ends_at_first_error msg r tr \<Longrightarrow> ends_at_first_error msg r (ev # tr)"
  unfolding ends_at_first_error_def
  by (cases r) (auto intro: Cons_eq_appendI)

lemma ends_append:
  "\<forall>ev\<in>set tr. \<not> failed ev \<Longrightarrow> ends_at_first_error msg r tr' \<Longrightarrow>
   ends_at_first_error msg r (tr @ tr')"
  by (induction tr) (auto intro: ends_Cons)

lemma ends_single:
  "ends_at_first_error msg (Some (errors_E err)) [BrokerPublish k msg (Some err)]"
  unfolding ends_at_first_error_def by simp

lemma Publish_topics_ends:
  "ends_at_first_error msg (fst (Publish_topics p msg m ts w)) (fst (snd (Publish_topics p msg m ts w)))"
proof (induction ts arbitrary: w)
  case Nil
  then show ?case by (simp add: ends_at_first_error_def)
next
  case (Cons t ts)
  show ?case
  proof (cases "pubsubs p (Broker m)")
    case None
    with Cons.IH [of w] show ?thesis
      by (auto split: prod.splits intro!: ends_Cons)
  next
    case (Some br)
    obtain out w1 where pw: "ps_Publish br msg w = (out, w1)"
      by (cases "ps_Publish br msg w") auto
    show ?thesis
    proof (cases out)
      case None
      with Cons.IH [of w1] Some pw show ?thesis
        by (auto split: prod.splits intro!: ends_Cons)
    next
      case (Some err)
      with \<open>pubsubs p (Broker m) = Some br\<close> pw show ?thesis
        by (simp add: ends_single)
    qed
  qed
qed

lemma Publish_msgs_ends:
  "ends_at_first_error msg (fst (Publish_msgs p msg ms w)) (fst (snd (Publish_msgs p msg ms w)))"
proof (induction ms arbitrary: w)
  case Nil
  then show ?case by (simp add: ends_at_first_error_def)
next
  case (Cons m ms)
  obtain r tr w1 where pt: "Publish_topics p msg m (Topics m) w = (r, tr, w1)"
    by (cases "Publish_topics p msg m (Topics m) w") auto
  from Publish_topics_ends [of msg p m "Topics m" w] pt
  have e1: "ends_at_first_error msg r tr" by simp
  show ?case
  proof (cases r)
    case None
    with e1 have nf: "\<forall>ev\<in>set tr. \<not> failed ev"
      by (simp add: ends_at_first_error_def)
    from ends_append [OF nf Cons.IH [of w1]] pt None show ?thesis
      by (auto split: prod.splits)
  next
    case (Some e)
    with e1 pt show ?thesis by simp
  qed
qed


lemma Publish_topics_calls:
  "Publish_topics p msg m ts w = (r, tr, w') \<Longrightarrow>
   prefix (publish_calls tr)
     (map (\<lambda>k. (k, msg)) (registered_keys p (replicate (length ts) (Broker m)))) \<and>
   (r = None \<longrightarrow>
      publish_calls tr =
        map (\<lambda>k. (k, msg)) (registered_keys p (replicate (length ts) (Broker m))))"
proof (induction ts arbitrary: w r tr w')
  case Nil
  then show ?case by (simp add: registered_keys_def)
next
  case (Cons t ts)
  show ?case
  proof (cases "pubsubs p (Broker m)")
    case None
    with Cons.prems obtain tr0 where run: "Publish_topics p msg m ts w = (r, tr0, w')"
      and tr: "tr = LogWarn_no_such_broker (Broker m) # tr0"
      by (auto split: prod.splits)
    from Cons.IH [OF run] show ?thesis
      by (simp add: tr None registered_keys_def)
  next
    case (Some br)
    obtain o1 w1 where pw: "ps_Publish br msg w = (o1, w1)"
      by (cases "ps_Publish br msg w") auto
    show ?thesis
    proof (cases o1)
      case None
      with Cons.prems Some pw obtain tr0 where run: "Publish_topics p msg m ts w1 = (r, tr0, w')"
        and tr: "tr = BrokerPublish (Broker m) msg None # tr0"
        by (auto split: prod.splits)
      from Cons.IH [OF run] show ?thesis
        by (simp add: tr \<open>pubsubs p (Broker m) = Some br\<close> registered_keys_def)
    next
      case (Some err)
      with Cons.prems \<open>pubsubs p (Broker m) = Some br\<close> pw show ?thesis
        by (auto simp: registered_keys_def)
    qed
  qed
qed

lemma Publish_msgs_calls:
  "Publish_msgs p msg ms w = (r, tr, w') \<Longrightarrow>
   prefix (publish_calls tr) (map (\<lambda>k. (k, msg)) (registered_keys p (pair_keys ms))) \<and>
   (r = None \<longrightarrow> publish_calls tr = map (\<lambda>k. (k, msg)) (registered_keys p (pair_keys ms)))"
proof (induction ms arbitrary: w r tr w')
  case Nil
  then show ?case by (simp add: pair_keys_def registered_keys_def)
next
  case (Cons m ms)
  have keys: "registered_keys p (pair_keys (m # ms)) =
      registered_keys p (replicate (length (Topics m)) (Broker m)) @
      registered_keys p (pair_keys ms)"
    by (simp add: pair_keys_def registered_keys_def)
  obtain r1 tr1 w1 where pt: "Publish_topics p msg m (Topics m) w = (r1, tr1, w1)"
    by (cases "Publish_topics p msg m (Topics m) w") auto
  note first = Publish_topics_calls [OF pt]
  show ?case
  proof (cases r1)
    case None
    with Cons.prems pt obtain tr2 where run: "Publish_msgs p msg ms w1 = (r, tr2, w')"
      and tr: "tr = tr1 @ tr2"
      by (auto split: prod.splits)
    from first None have full: "publish_calls tr1 =
        map (\<lambda>k. (k, msg)) (registered_keys p (replicate (length (Topics m)) (Broker m)))"
      by simp
    from Cons.IH [OF run] show ?thesis
      by (simp add: tr keys publish_calls_append full)
  next
    case (Some e)
    with Cons.prems pt have "r = Some e" "tr = tr1" by auto
    with first show ?thesis
      by (simp add: keys prefix_prefix)
  qed
qed

text \<open>
  C5. For every batch, plugin and world, the run of Publish is this. Its broker
  publishes are real: each goes to a registered broker with the whole batch, the outcome
  in the trace is what that broker answered, and the world afterwards is the one the
  calls of the trace leave, so there is no call beyond them. They follow the (message,
  topic) pairs with a registered key in batch order. Either Publish returns nil: then
  every such pair was published and no call failed. Or it returns an error: then the
  failed call is the last event of the run, so the remaining pairs are not published;
  no call before it failed; and the returned error is that call's error, passed through
  \<^verbatim>\<open>errors.E\<close>.
\<close>

theorem Publish_stops_at_first_error:
  "replays p (fst (snd (Publish p msg w))) w (snd (snd (Publish p msg w))) \<and>
   ends_at_first_error msg (fst (Publish p msg w)) (fst (snd (Publish p msg w))) \<and>
   prefix (publish_calls (fst (snd (Publish p msg w))))
     (map (\<lambda>k. (k, msg)) (registered_keys p (pair_keys msg))) \<and>
   (fst (Publish p msg w) = None \<longrightarrow>
      publish_calls (fst (snd (Publish p msg w))) =
        map (\<lambda>k. (k, msg)) (registered_keys p (pair_keys msg)))"
proof -
  obtain r tr w' where run: "Publish_msgs p msg msg w = (r, tr, w')"
    by (cases "Publish_msgs p msg msg w") auto
  from Publish_msgs_replays [OF run] Publish_msgs_ends [of msg p msg w]
    Publish_msgs_calls [OF run] run
  show ?thesis by (simp add: Publish_def)
qed

theorem Publish_stops_at_first_error_witness:
  "Publish hub [ship_msg, ship_msg, order_msg] 0 =
     (Some (errors_E (Err ''down'')),
      [BrokerPublish ''redis'' [ship_msg, ship_msg, order_msg] None,
       BrokerPublish ''redis'' [ship_msg, ship_msg, order_msg] (Some (Err ''down''))], 2) \<and>
   replays hub (fst (snd (Publish hub [ship_msg, ship_msg, order_msg] 0))) 0
     (snd (snd (Publish hub [ship_msg, ship_msg, order_msg] 0))) \<and>
   ends_at_first_error [ship_msg, ship_msg, order_msg]
     (fst (Publish hub [ship_msg, ship_msg, order_msg] 0))
     (fst (snd (Publish hub [ship_msg, ship_msg, order_msg] 0))) \<and>
   prefix (publish_calls (fst (snd (Publish hub [ship_msg, ship_msg, order_msg] 0))))
     (map (\<lambda>k. (k, [ship_msg, ship_msg, order_msg]))
        (registered_keys hub (pair_keys [ship_msg, ship_msg, order_msg])))"
proof -
  have run: "Publish hub [ship_msg, ship_msg, order_msg] 0 =
     (Some (errors_E (Err ''down'')),
      [BrokerPublish ''redis'' [ship_msg, ship_msg, order_msg] None,
       BrokerPublish ''redis'' [ship_msg, ship_msg, order_msg] (Some (Err ''down''))], 2)"
    by (simp add: Publish_def hub_def ship_msg_def order_msg_def redis_broker_def)
  from Publish_stops_at_first_error [of hub "[ship_msg, ship_msg, order_msg]" 0] run
  show ?thesis by blast
qed

subsection \<open>A key that is not registered\<close>

lemma Publish_topics_registered:
  "Publish_topics p msg m ts w = (r, tr, w') \<Longrightarrow> BrokerPublish k b out \<in> set tr \<Longrightarrow>
   pubsubs p k \<noteq> None"
proof (induction ts arbitrary: w r tr w')
  case Nil
  then show ?case by simp
next
  case (Cons t ts)
  show ?case
  proof (cases "pubsubs p (Broker m)")
    case None
    with Cons.prems obtain tr0 where "Publish_topics p msg m ts w = (r, tr0, w')"
      and "BrokerPublish k b out \<in> set tr0"
      by (auto split: prod.splits)
    then show ?thesis by (rule Cons.IH)
  next
    case (Some br)
    obtain o1 w1 where pw: "ps_Publish br msg w = (o1, w1)"
      by (cases "ps_Publish br msg w") auto
    show ?thesis
    proof (cases o1)
      case None
      show ?thesis
      proof (cases "k = Broker m")
        case True
        with Some show ?thesis by simp
      next
        case False
        with Cons.prems Some pw None obtain tr0 where "Publish_topics p msg m ts w1 = (r, tr0, w')"
          and "BrokerPublish k b out \<in> set tr0"
          by (auto split: prod.splits)
        then show ?thesis by (rule Cons.IH)
      qed
    next
      case (Some err)
      with Cons.prems \<open>pubsubs p (Broker m) = Some br\<close> pw show ?thesis
        by auto
    qed
  qed
qed

lemma Publish_msgs_registered:
  "Publish_msgs p msg ms w = (r, tr, w') \<Longrightarrow> BrokerPublish k b out \<in> set tr \<Longrightarrow>
   pubsubs p k \<noteq> None"
proof (induction ms arbitrary: w r tr w')
  case Nil
  then show ?case by simp
next
  case (Cons m ms)
  obtain r1 tr1 w1 where pt: "Publish_topics p msg m (Topics m) w = (r1, tr1, w1)"
    by (cases "Publish_topics p msg m (Topics m) w") auto
  show ?case
  proof (cases "BrokerPublish k b out \<in> set tr1")
    case True
    with pt show ?thesis by (rule Publish_topics_registered)
  next
    case False
    with Cons.prems pt obtain tr2 where "Publish_msgs p msg ms w1 = (r, tr2, w')"
      and "BrokerPublish k b out \<in> set tr2"
      by (auto split: option.splits prod.splits)
    then show ?thesis by (rule Cons.IH)
  qed
qed


lemma Publish_topics_unknown:
  "pubsubs p (Broker m) = None \<Longrightarrow>
   Publish_topics p msg m ts w =
     (None, replicate (length ts) (LogWarn_no_such_broker (Broker m)), w)"
  by (induction ts) simp_all

lemma Publish_msgs_unknown_entry:
  assumes "pubsubs p (Broker m) = None"
  shows "Publish_msgs p msg (m # post) w =
           (case Publish_msgs p msg post w of
              (r, tr2, w2) \<Rightarrow>
                (r, replicate (length (Topics m)) (LogWarn_no_such_broker (Broker m)) @ tr2, w2))"
  by (simp add: Publish_topics_unknown [OF assms] split: prod.splits)

text \<open>
  C2, as the code has it. Let the batch be \<open>pre @ m # post\<close>, the broker key of \<open>m\<close> not
  in the broker map. If publishing the entries before \<open>m\<close> ends in an error, which it
  does exactly when a broker publish for one of them failed (the last conjunct), Publish
  returns that error and never reaches \<open>m\<close>. Otherwise Publish logs one "no such broker"
  warning per topic of \<open>m\<close>, calls no broker for it and leaves the world as it is, and
  goes on with the entries after \<open>m\<close>: its result is the result of publishing them. In
  either case no broker publish is made under the key of \<open>m\<close>, the broker publishes of
  the run are real calls with the recorded answers, and an error result is the error
  of a failed publish on a registered broker.
\<close>

theorem Publish_unknown_broker_skipped:
  assumes "pubsubs p (Broker m) = None" and "msg = pre @ m # post"
  shows "(case Publish_msgs p msg pre w of
            (Some e, tr1, w1) \<Rightarrow> Publish p msg w = (Some e, tr1, w1)
          | (None, tr1, w1) \<Rightarrow>
              (case Publish_msgs p msg post w1 of
                 (r, tr2, w2) \<Rightarrow>
                   Publish p msg w =
                     (r, tr1 @ replicate (length (Topics m)) (LogWarn_no_such_broker (Broker m)) @ tr2,
                      w2))) \<and>
         (\<forall>b out. BrokerPublish (Broker m) b out \<notin> set (fst (snd (Publish p msg w)))) \<and>
         replays p (fst (snd (Publish p msg w))) w (snd (snd (Publish p msg w))) \<and>
         (\<forall>e. fst (Publish p msg w) = Some e \<longrightarrow>
            (\<exists>k br err. pubsubs p k = Some br \<and> e = errors_E err \<and>
               BrokerPublish k msg (Some err) \<in> set (fst (snd (Publish p msg w))))) \<and>
         ends_at_first_error msg (fst (Publish_msgs p msg pre w))
           (fst (snd (Publish_msgs p msg pre w)))"
proof -
  have split: "Publish p msg w = Publish_msgs p msg (pre @ m # post) w"
    by (simp add: Publish_def assms(2) [symmetric])
  have one: "case Publish_msgs p msg pre w of
            (Some e, tr1, w1) \<Rightarrow> Publish p msg w = (Some e, tr1, w1)
          | (None, tr1, w1) \<Rightarrow>
              (case Publish_msgs p msg post w1 of
                 (r, tr2, w2) \<Rightarrow>
                   Publish p msg w =
                     (r, tr1 @ replicate (length (Topics m)) (LogWarn_no_such_broker (Broker m)) @ tr2,
                      w2))"
    unfolding split Publish_msgs_append Publish_msgs_unknown_entry [OF assms(1)]
    by (simp split: prod.splits option.splits)
  obtain r tr w' where run: "Publish_msgs p msg msg w = (r, tr, w')"
    by (cases "Publish_msgs p msg msg w") auto
  have reg: "\<And>k b out. BrokerPublish k b out \<in> set tr \<Longrightarrow> pubsubs p k \<noteq> None"
    using Publish_msgs_registered [OF run] .
  have two: "\<forall>b out. BrokerPublish (Broker m) b out \<notin> set tr"
    using reg [of "Broker m"] assms(1) by blast
  have three: "replays p tr w w'"
    using run by (rule Publish_msgs_replays)
  have four: "\<exists>k br err. pubsubs p k = Some br \<and> e = errors_E err \<and>
               BrokerPublish k msg (Some err) \<in> set tr" if "r = Some e" for e
  proof -
    from Publish_msgs_ends [of msg p msg w] run that
    obtain pre' k err where tr: "tr = pre' @ [BrokerPublish k msg (Some err)]" and e: "e = errors_E err"
      by (auto simp: ends_at_first_error_def)
    from tr have "BrokerPublish k msg (Some err) \<in> set tr" by simp
    with reg [of k msg "Some err"] e show ?thesis by auto
  qed
  have five: "ends_at_first_error msg (fst (Publish_msgs p msg pre w))
      (fst (snd (Publish_msgs p msg pre w)))"
    by (rule Publish_msgs_ends)
  from two three four have "(\<forall>b out. BrokerPublish (Broker m) b out \<notin> set (fst (snd (Publish p msg w)))) \<and>
     replays p (fst (snd (Publish p msg w))) w (snd (snd (Publish p msg w))) \<and>
     (\<forall>e. fst (Publish p msg w) = Some e \<longrightarrow>
        (\<exists>k br err. pubsubs p k = Some br \<and> e = errors_E err \<and>
           BrokerPublish k msg (Some err) \<in> set (fst (snd (Publish p msg w)))))"
    by (simp add: Publish_def run)
  with five have rest:
    "(\<forall>b out. BrokerPublish (Broker m) b out \<notin> set (fst (snd (Publish p msg w)))) \<and>
     replays p (fst (snd (Publish p msg w))) w (snd (snd (Publish p msg w))) \<and>
     (\<forall>e. fst (Publish p msg w) = Some e \<longrightarrow>
        (\<exists>k br err. pubsubs p k = Some br \<and> e = errors_E err \<and>
           BrokerPublish k msg (Some err) \<in> set (fst (snd (Publish p msg w))))) \<and>
     ends_at_first_error msg (fst (Publish_msgs p msg pre w))
       (fst (snd (Publish_msgs p msg pre w)))"
    by blast
  from one rest show ?thesis by (rule conjI)
qed

theorem Publish_unknown_broker_skipped_witness:
  "pubsubs hub (Broker stray_msg) = None \<and>
   Publish_msgs hub [order_msg, stray_msg, ship_msg] [order_msg] 0 =
     (None,
      [BrokerPublish ''memory'' [order_msg, stray_msg, ship_msg] None,
       BrokerPublish ''memory'' [order_msg, stray_msg, ship_msg] None], 2) \<and>
   Publish hub [order_msg, stray_msg, ship_msg] 0 =
     (None,
      [BrokerPublish ''memory'' [order_msg, stray_msg, ship_msg] None,
       BrokerPublish ''memory'' [order_msg, stray_msg, ship_msg] None,
       LogWarn_no_such_broker ''kafka'',
       BrokerPublish ''redis'' [order_msg, stray_msg, ship_msg] None], 3) \<and>
   Publish_msgs hub [ship_msg, stray_msg] [ship_msg] 1 =
     (Some (errors_E (Err ''down'')),
      [BrokerPublish ''redis'' [ship_msg, stray_msg] (Some (Err ''down''))], 2) \<and>
   Publish hub [ship_msg, stray_msg] 1 =
     (Some (errors_E (Err ''down'')),
      [BrokerPublish ''redis'' [ship_msg, stray_msg] (Some (Err ''down''))], 2)"
proof -
  have unregistered: "pubsubs hub (Broker stray_msg) = None"
    by (simp add: hub_def stray_msg_def)
  have s1: "[order_msg, stray_msg, ship_msg] = [order_msg] @ stray_msg # [ship_msg]" by simp
  have s2: "[ship_msg, stray_msg] = [ship_msg] @ stray_msg # []" by simp
  have before1: "Publish_msgs hub [order_msg, stray_msg, ship_msg] [order_msg] 0 =
     (None,
      [BrokerPublish ''memory'' [order_msg, stray_msg, ship_msg] None,
       BrokerPublish ''memory'' [order_msg, stray_msg, ship_msg] None], 2)"
    by (simp add: hub_def order_msg_def memory_broker_def)
  have after1: "Publish_msgs hub [order_msg, stray_msg, ship_msg] [ship_msg] 2 =
     (None, [BrokerPublish ''redis'' [order_msg, stray_msg, ship_msg] None], 3)"
    by (simp add: hub_def ship_msg_def redis_broker_def)
  have before2: "Publish_msgs hub [ship_msg, stray_msg] [ship_msg] 1 =
     (Some (errors_E (Err ''down'')),
      [BrokerPublish ''redis'' [ship_msg, stray_msg] (Some (Err ''down''))], 2)"
    by (simp add: hub_def ship_msg_def redis_broker_def)
  have kafka: "Broker stray_msg = ''kafka''" "length (Topics stray_msg) = 1"
    by (simp_all add: stray_msg_def)
  from Publish_unknown_broker_skipped
    [OF unregistered s1, of 0, THEN conjunct1, unfolded before1 prod.case option.case after1]
  have "Publish hub [order_msg, stray_msg, ship_msg] 0 =
     (None,
      [BrokerPublish ''memory'' [order_msg, stray_msg, ship_msg] None,
       BrokerPublish ''memory'' [order_msg, stray_msg, ship_msg] None,
       LogWarn_no_such_broker ''kafka'',
       BrokerPublish ''redis'' [order_msg, stray_msg, ship_msg] None], 3)"
    by (simp add: kafka)
  moreover from Publish_unknown_broker_skipped
    [OF unregistered s2, of 1, THEN conjunct1, unfolded before2 prod.case option.case]
  have "Publish hub [ship_msg, stray_msg] 1 =
     (Some (errors_E (Err ''down'')),
      [BrokerPublish ''redis'' [ship_msg, stray_msg] (Some (Err ''down''))], 2)"
    .
  ultimately show ?thesis using unregistered before1 before2 by simp
qed

text \<open>
  The claim as stated (an unknown broker key makes Publish return an error) fails: with
  the only entry of the batch naming the unregistered key "kafka", Publish logs the
  warning and returns nil.
\<close>

theorem Publish_unknown_broker_counterexample:
  "pubsubs hub (Broker stray_msg) = None \<and>
   Publish hub [stray_msg] 0 = (None, [LogWarn_no_such_broker ''kafka''], 0)"
  by (simp add: Publish_def hub_def stray_msg_def)

section \<open>Properties of PublishAsync\<close>

lemma logs_Cons:
  "\<not> failed ev \<Longrightarrow> logs_first_error msg fl tr \<Longrightarrow> logs_first_error msg fl (ev # tr)"
  unfolding logs_first_error_def
  by (cases fl) (auto intro: Cons_eq_appendI)

lemma logs_append:
  "\<forall>ev\<in>set tr. \<not> failed ev \<Longrightarrow> logs_first_error msg fl tr' \<Longrightarrow>
   logs_first_error msg fl (tr @ tr')"
  by (induction tr) (auto intro: logs_Cons)

lemma logs_single:
  "logs_first_error msg Returned [BrokerPublish k msg (Some err), LogError_publish_async err]"
  unfolding logs_first_error_def by simp

lemma logs_Fallthrough:
  "logs_first_error msg Fallthrough tr \<Longrightarrow> \<forall>ev\<in>set tr. \<not> failed ev"
  by (simp add: logs_first_error_def)

lemma PublishAsync_topics_logs:
  "PublishAsync_topics p msg m ts w = (fl, tr, w') \<Longrightarrow> logs_first_error msg fl tr"
proof (induction ts arbitrary: w fl tr w')
  case Nil
  then show ?case by (auto simp: logs_first_error_def)
next
  case (Cons t ts)
  show ?case
  proof (cases "pubsubs p (Broker m)")
    case None
    with Cons.prems show ?thesis by (auto simp: logs_first_error_def)
  next
    case (Some br)
    obtain o1 w1 where pw: "ps_Publish br msg w = (o1, w1)"
      by (cases "ps_Publish br msg w") auto
    show ?thesis
    proof (cases o1)
      case None
      with Cons.prems Some pw obtain tr0 where run: "PublishAsync_topics p msg m ts w1 = (fl, tr0, w')"
        and tr: "tr = BrokerPublish (Broker m) msg None # tr0"
        by (auto split: prod.splits)
      from Cons.IH [OF run] show ?thesis
        unfolding tr by (rule logs_Cons [rotated]) simp
    next
      case (Some err)
      with Cons.prems \<open>pubsubs p (Broker m) = Some br\<close> pw show ?thesis
        by (auto simp: logs_single)
    qed
  qed
qed

lemma PublishAsync_msgs_logs:
  "PublishAsync_msgs p msg ms w = (fl, tr, w') \<Longrightarrow> logs_first_error msg fl tr"
proof (induction ms arbitrary: w fl tr w')
  case Nil
  then show ?case by (auto simp: logs_first_error_def)
next
  case (Cons m ms)
  obtain f1 tr1 w1 where pt: "PublishAsync_topics p msg m (Topics m) w = (f1, tr1, w1)"
    by (cases "PublishAsync_topics p msg m (Topics m) w") auto
  note l1 = PublishAsync_topics_logs [OF pt]
  show ?case
  proof (cases "f1 = Fallthrough")
    case True
    with Cons.prems pt obtain tr2 where run: "PublishAsync_msgs p msg ms w1 = (fl, tr2, w')"
      and tr: "tr = tr1 @ tr2"
      by (auto split: prod.splits)
    from l1 True have "\<forall>ev\<in>set tr1. \<not> failed ev" by (simp add: logs_Fallthrough)
    then show ?thesis unfolding tr using Cons.IH [OF run] by (rule logs_append)
  next
    case False
    with Cons.prems pt have "fl = f1" "tr = tr1"
      by (cases f1; simp)+
    with l1 show ?thesis by simp
  qed
qed




subsection \<open>A key that is not registered: the nil broker\<close>

lemma PublishAsync_topics_unknown:
  "pubsubs p (Broker m) = None \<Longrightarrow> ts \<noteq> [] \<Longrightarrow>
   PublishAsync_topics p msg m ts w = (Panicked, [], w)"
  by (cases ts) simp_all

lemma PublishAsync_topics_registered:
  "pubsubs p (Broker m) = Some br \<Longrightarrow> PublishAsync_topics p msg m ts w = (fl, tr, w') \<Longrightarrow>
   fl \<noteq> Panicked"
  by (induction ts arbitrary: w fl tr w') (auto split: option.splits prod.splits)

lemma PublishAsync_topics_replays:
  "PublishAsync_topics p msg m ts w = (fl, tr, w') \<Longrightarrow> replays p tr w w'"
proof (induction ts arbitrary: w fl tr w')
  case Nil
  then show ?case by simp
next
  case (Cons t ts)
  show ?case
  proof (cases "pubsubs p (Broker m)")
    case None
    with Cons.prems show ?thesis by simp
  next
    case (Some br)
    obtain o1 w1 where pw: "ps_Publish br msg w = (o1, w1)"
      by (cases "ps_Publish br msg w") auto
    show ?thesis
    proof (cases o1)
      case None
      with Cons.prems Some pw obtain tr0 where run: "PublishAsync_topics p msg m ts w1 = (fl, tr0, w')"
        and tr: "tr = BrokerPublish (Broker m) msg None # tr0"
        by (auto split: prod.splits)
      from Cons.IH [OF run] show ?thesis
        by (simp add: tr \<open>pubsubs p (Broker m) = Some br\<close> pw None)
    next
      case (Some err)
      with Cons.prems \<open>pubsubs p (Broker m) = Some br\<close> pw show ?thesis
        by auto
    qed
  qed
qed

lemma PublishAsync_msgs_replays:
  "PublishAsync_msgs p msg ms w = (fl, tr, w') \<Longrightarrow> replays p tr w w'"
proof (induction ms arbitrary: w fl tr w')
  case Nil
  then show ?case by simp
next
  case (Cons m ms)
  obtain f1 tr1 w1 where pt: "PublishAsync_topics p msg m (Topics m) w = (f1, tr1, w1)"
    by (cases "PublishAsync_topics p msg m (Topics m) w") auto
  note first = PublishAsync_topics_replays [OF pt]
  show ?case
  proof (cases "f1 = Fallthrough")
    case True
    with Cons.prems pt obtain tr2 where run: "PublishAsync_msgs p msg ms w1 = (fl, tr2, w')"
      and tr: "tr = tr1 @ tr2"
      by (auto split: prod.splits)
    from replays_append [OF first Cons.IH [OF run]] show ?thesis by (simp add: tr)
  next
    case False
    with Cons.prems pt have "tr = tr1" "w' = w1"
      by (cases f1; simp)+
    with first show ?thesis by simp
  qed
qed

lemma PublishAsync_topics_quiet:
  "PublishAsync_topics p msg m ts w = (fl, tr, w') \<Longrightarrow> fl \<noteq> Returned \<Longrightarrow>
   \<forall>ev\<in>set tr. \<exists>k. ev = BrokerPublish k msg None"
proof (induction ts arbitrary: w fl tr w')
  case Nil
  then show ?case by simp
next
  case (Cons t ts)
  show ?case
  proof (cases "pubsubs p (Broker m)")
    case None
    with Cons.prems show ?thesis by simp
  next
    case (Some br)
    obtain o1 w1 where pw: "ps_Publish br msg w = (o1, w1)"
      by (cases "ps_Publish br msg w") auto
    show ?thesis
    proof (cases o1)
      case None
      with Cons.prems Some pw obtain tr0 where run: "PublishAsync_topics p msg m ts w1 = (fl, tr0, w')"
        and tr: "tr = BrokerPublish (Broker m) msg None # tr0"
        by (auto split: prod.splits)
      from Cons.IH [OF run Cons.prems(2)] show ?thesis by (simp add: tr)
    next
      case (Some err)
      with Cons.prems \<open>pubsubs p (Broker m) = Some br\<close> pw show ?thesis
        by auto
    qed
  qed
qed

lemma PublishAsync_msgs_quiet:
  "PublishAsync_msgs p msg ms w = (fl, tr, w') \<Longrightarrow> fl \<noteq> Returned \<Longrightarrow>
   \<forall>ev\<in>set tr. \<exists>k. ev = BrokerPublish k msg None"
proof (induction ms arbitrary: w fl tr w')
  case Nil
  then show ?case by simp
next
  case (Cons m ms)
  obtain f1 tr1 w1 where pt: "PublishAsync_topics p msg m (Topics m) w = (f1, tr1, w1)"
    by (cases "PublishAsync_topics p msg m (Topics m) w") auto
  show ?case
  proof (cases "f1 = Fallthrough")
    case True
    with Cons.prems pt obtain tr2 where run: "PublishAsync_msgs p msg ms w1 = (fl, tr2, w')"
      and tr: "tr = tr1 @ tr2"
      by (auto split: prod.splits)
    from PublishAsync_topics_quiet [OF pt] True Cons.IH [OF run Cons.prems(2)]
    show ?thesis by (auto simp: tr)
  next
    case False
    with Cons.prems pt have "fl = f1" "tr = tr1"
      by (cases f1; simp)+
    with PublishAsync_topics_quiet [OF pt] Cons.prems(2) show ?thesis by simp
  qed
qed

lemma PublishAsync_msgs_not_fall:
  "\<exists>m\<in>set ms. pubsubs p (Broker m) = None \<and> Topics m \<noteq> [] \<Longrightarrow>
   PublishAsync_msgs p msg ms w = (fl, tr, w') \<Longrightarrow> fl \<noteq> Fallthrough"
proof (induction ms arbitrary: w fl tr w')
  case Nil
  then show ?case by simp
next
  case (Cons m ms)
  show ?case
  proof (cases "pubsubs p (Broker m) = None \<and> Topics m \<noteq> []")
    case True
    with Cons.prems(2) show ?thesis by (auto simp: PublishAsync_topics_unknown)
  next
    case False
    with Cons.prems(1) have ex: "\<exists>m\<in>set ms. pubsubs p (Broker m) = None \<and> Topics m \<noteq> []"
      by auto
    obtain f1 tr1 w1 where pt: "PublishAsync_topics p msg m (Topics m) w = (f1, tr1, w1)"
      by (cases "PublishAsync_topics p msg m (Topics m) w") auto
    show ?thesis
    proof (cases "f1 = Fallthrough")
      case True
      with Cons.prems(2) pt obtain tr2 where "PublishAsync_msgs p msg ms w1 = (fl, tr2, w')"
        by (auto split: prod.splits)
      with ex show ?thesis by (rule Cons.IH)
    next
      case False
      with Cons.prems(2) pt have "fl = f1" by (cases f1; simp)
      with False show ?thesis by simp
    qed
  qed
qed

lemma PublishAsync_topics_Fallthrough_sync:
  "PublishAsync_topics p msg m ts w = (Fallthrough, tr, w') \<Longrightarrow>
   Publish_topics p msg m ts w = (None, tr, w')"
  by (induction ts arbitrary: w tr w') (auto split: option.splits prod.splits)

lemma PublishAsync_topics_Panicked:
  assumes "PublishAsync_topics p msg m ts w = (Panicked, tr, w')"
  shows "pubsubs p (Broker m) = None \<and> ts \<noteq> [] \<and> tr = [] \<and> w' = w"
proof (cases "pubsubs p (Broker m)")
  case None
  show ?thesis
  proof (cases ts)
    case Nil
    with assms show ?thesis by simp
  next
    case (Cons t ts')
    with assms None show ?thesis by simp
  qed
next
  case (Some br)
  from PublishAsync_topics_registered [OF Some assms] show ?thesis by simp
qed

lemma PublishAsync_msgs_Panicked_sync:
  "PublishAsync_msgs p msg ms w = (Panicked, tr, w') \<Longrightarrow>
   \<exists>k tr2. pubsubs p k = None \<and>
     fst (snd (Publish_msgs p msg ms w)) = tr @ LogWarn_no_such_broker k # tr2"
proof (induction ms arbitrary: w tr w')
  case Nil
  then show ?case by simp
next
  case (Cons m ms)
  obtain f1 tr1 w1 where pt: "PublishAsync_topics p msg m (Topics m) w = (f1, tr1, w1)"
    by (cases "PublishAsync_topics p msg m (Topics m) w") auto
  show ?case
  proof (cases f1)
    case Fallthrough
    with Cons.prems pt obtain tr2 where run: "PublishAsync_msgs p msg ms w1 = (Panicked, tr2, w')"
      and tr: "tr = tr1 @ tr2"
      by (auto split: prod.splits)
    from pt Fallthrough have sync: "Publish_topics p msg m (Topics m) w = (None, tr1, w1)"
      by (simp add: PublishAsync_topics_Fallthrough_sync)
    from Cons.IH [OF run] obtain k tr3 where "pubsubs p k = None"
      and "fst (snd (Publish_msgs p msg ms w1)) = tr2 @ LogWarn_no_such_broker k # tr3"
      by blast
    then show ?thesis
      by (auto simp: sync tr split: prod.splits)
  next
    case Returned
    with Cons.prems pt show ?thesis by simp
  next
    case Panicked
    with Cons.prems pt have "tr = tr1" by simp
    from pt Panicked PublishAsync_topics_Panicked [of p msg m "Topics m" w tr1 w1]
    have un: "pubsubs p (Broker m) = None" and ne: "Topics m \<noteq> []" and e: "tr1 = []"
      by simp_all
    from ne obtain n where n: "length (Topics m) = Suc n"
      by (cases "Topics m") auto
    show ?thesis
      using un by (auto simp: \<open>tr = tr1\<close> e Publish_topics_unknown n split: prod.splits)
  qed
qed

text \<open>
  C7, as the code has it. PublishAsync looks the broker up without the existence test
  that Publish has. Take any batch that contains a message with an unregistered broker
  key and at least one topic. The broker publishes of the goroutine are real calls with
  the recorded answers. The goroutine never gets through the batch: if none of its
  broker publishes failed, it panics on the nil broker handle, and otherwise it has
  returned early. When it panics, all it did before were successful broker publishes
  with the whole batch, so nothing was logged; and the synchronous Publish on the same
  input makes the same calls and then, where the goroutine panics, logs a "no such
  broker" warning instead.
\<close>

theorem PublishAsync_unknown_broker_panics:
  assumes "m \<in> set msg" and "pubsubs p (Broker m) = None" and "Topics m \<noteq> []"
  shows "replays p (fst (snd (PublishAsync_go p msg w))) w (snd (snd (PublishAsync_go p msg w))) \<and>
         fst (PublishAsync_go p msg w) =
           (if \<forall>ev\<in>set (fst (snd (PublishAsync_go p msg w))). \<not> failed ev
            then Panicked else Returned) \<and>
         (fst (PublishAsync_go p msg w) = Panicked \<longrightarrow>
            (\<forall>ev\<in>set (fst (snd (PublishAsync_go p msg w))). \<exists>k. ev = BrokerPublish k msg None) \<and>
            (\<exists>k tr2. pubsubs p k = None \<and>
               fst (snd (Publish p msg w)) =
                 fst (snd (PublishAsync_go p msg w)) @ LogWarn_no_such_broker k # tr2))"
proof -
  obtain fl tr w' where run: "PublishAsync_msgs p msg msg w = (fl, tr, w')"
    by (cases "PublishAsync_msgs p msg msg w") auto
  have real: "replays p tr w w'"
    using run by (rule PublishAsync_msgs_replays)
  from assms have "\<exists>m\<in>set msg. pubsubs p (Broker m) = None \<and> Topics m \<noteq> []"
    by auto
  from PublishAsync_msgs_not_fall [OF this run]
  have not_fall: "fl \<noteq> Fallthrough" .
  note shape = PublishAsync_msgs_logs [OF run]
  have exit: "fl = (if \<forall>ev\<in>set tr. \<not> failed ev then Panicked else Returned)"
  proof (cases fl)
    case Fallthrough
    with not_fall show ?thesis by simp
  next
    case Returned
    with shape obtain pre k err where
      "tr = pre @ [BrokerPublish k msg (Some err), LogError_publish_async err]"
      by (auto simp: logs_first_error_def)
    then have "failed (BrokerPublish k msg (Some err))" "BrokerPublish k msg (Some err) \<in> set tr"
      by simp_all
    then have "\<not> (\<forall>ev\<in>set tr. \<not> failed ev)" by blast
    with Returned show ?thesis by simp
  next
    case Panicked
    with shape show ?thesis by (simp add: logs_first_error_def)
  qed
  have crash: "(\<forall>ev\<in>set tr. \<exists>k. ev = BrokerPublish k msg None) \<and>
      (\<exists>k tr2. pubsubs p k = None \<and>
         fst (snd (Publish_msgs p msg msg w)) = tr @ LogWarn_no_such_broker k # tr2)"
    if "fl = Panicked"
    using PublishAsync_msgs_quiet [OF run] PublishAsync_msgs_Panicked_sync [of p msg msg w tr w']
      run that by simp
  from real exit crash show ?thesis
    by (simp add: PublishAsync_go_def Publish_def run)
qed

theorem PublishAsync_unknown_broker_panics_witness:
  "pubsubs hub (Broker stray_msg) = None \<and> Topics stray_msg \<noteq> [] \<and>
   PublishAsync_go hub [ship_msg, stray_msg] 0 =
     (Panicked, [BrokerPublish ''redis'' [ship_msg, stray_msg] None], 1) \<and>
   replays hub (fst (snd (PublishAsync_go hub [ship_msg, stray_msg] 0))) 0
     (snd (snd (PublishAsync_go hub [ship_msg, stray_msg] 0))) \<and>
   (\<exists>k tr2. pubsubs hub k = None \<and>
      fst (snd (Publish hub [ship_msg, stray_msg] 0)) =
        fst (snd (PublishAsync_go hub [ship_msg, stray_msg] 0)) @
        LogWarn_no_such_broker k # tr2) \<and>
   Publish hub [ship_msg, stray_msg] 0 =
     (None,
      [BrokerPublish ''redis'' [ship_msg, stray_msg] None, LogWarn_no_such_broker ''kafka''], 1)"
proof -
  have in_batch: "stray_msg \<in> set [ship_msg, stray_msg]" by simp
  have unregistered: "pubsubs hub (Broker stray_msg) = None"
    by (simp add: hub_def stray_msg_def)
  have topic: "Topics stray_msg \<noteq> []" by (simp add: stray_msg_def)
  have run: "PublishAsync_go hub [ship_msg, stray_msg] 0 =
     (Panicked, [BrokerPublish ''redis'' [ship_msg, stray_msg] None], 1)"
    by (simp add: PublishAsync_go_def hub_def ship_msg_def stray_msg_def redis_broker_def)
  have sync: "Publish hub [ship_msg, stray_msg] 0 =
     (None,
      [BrokerPublish ''redis'' [ship_msg, stray_msg] None, LogWarn_no_such_broker ''kafka''], 1)"
    by (simp add: Publish_def hub_def ship_msg_def stray_msg_def redis_broker_def)
  from PublishAsync_unknown_broker_panics [OF in_batch unregistered topic, of 0]
  have "replays hub (fst (snd (PublishAsync_go hub [ship_msg, stray_msg] 0))) 0
     (snd (snd (PublishAsync_go hub [ship_msg, stray_msg] 0))) \<and>
   (\<exists>k tr2. pubsubs hub k = None \<and>
      fst (snd (Publish hub [ship_msg, stray_msg] 0)) =
        fst (snd (PublishAsync_go hub [ship_msg, stray_msg] 0)) @
        LogWarn_no_such_broker k # tr2)"
    using run by simp
  with unregistered topic run sync show ?thesis by simp
qed

text \<open>
  The claim as stated (any batch containing a message with an unregistered key makes the
  goroutine dereference the nil handle) fails in two ways. A message without topics
  never reaches the lookup: the inner loop does not run. And a broker publish that
  fails earlier in the batch makes the goroutine log and return before it reaches the
  unregistered key.
\<close>

theorem PublishAsync_unknown_broker_counterexample:
  "pubsubs hub (Broker silent_msg) = None \<and>
   PublishAsync_go hub [silent_msg] 0 = (Fallthrough, [], 0) \<and>
   pubsubs hub (Broker stray_msg) = None \<and>
   PublishAsync_go hub [ship_msg, ship_msg, stray_msg] 0 =
     (Returned,
      [BrokerPublish ''redis'' [ship_msg, ship_msg, stray_msg] None,
       BrokerPublish ''redis'' [ship_msg, ship_msg, stray_msg] (Some (Err ''down'')),
       LogError_publish_async (Err ''down'')], 2)"
  by (simp add: PublishAsync_go_def hub_def silent_msg_def stray_msg_def ship_msg_def
      redis_broker_def)

section \<open>Properties of Stop\<close>

text \<open>
  C3, as the code has it. For every hub state, whatever connections are registered: Stop
  adds one to the stopped counter, stops the worker pool and returns nil. That is all it
  does: the only event is the pool's stop, no connection is closed, and the connection
  registry and the broker map are unchanged.
\<close>

theorem Stop_counts_and_stops_pool:
  "fst (Stop p) = None \<and>
   fst (snd (Stop p)) = [PoolStop] \<and>
   (\<forall>c. ConnClose c \<notin> set (fst (snd (Stop p)))) \<and>
   stopped (snd (snd (Stop p))) = stopped p + 1 \<and>
   workersPool (snd (snd (Stop p))) = PoolStopped \<and>
   connections (snd (snd (Stop p))) = connections p \<and>
   pubsubs (snd (snd (Stop p))) = pubsubs p"
  by (simp add: Stop_def AddUint64_def WorkersPool_Stop_def)

text \<open>
  The claim as stated (Stop forcibly closes every registered connection) fails: the hub
  holds connection 7 under the key "c1"; Stop does not close it, and it is still
  registered afterwards.
\<close>

theorem Stop_closes_no_connection_counterexample:
  "connections hub ''c1'' = Some 7 \<and>
   ConnClose 7 \<notin> set (fst (snd (Stop hub))) \<and>
   connections (snd (snd (Stop hub))) ''c1'' = Some 7"
  by (simp add: Stop_def hub_def)

section \<open>Properties of the stopped gate and of the handler\<close>

lemma Stop_times_fields:
  "stopped (Stop_times n p) = stopped p + of_nat n \<and>
   Config_Path (Stop_times n p) = Config_Path p"
  by (induction n arbitrary: p) (simp_all add: Stop_def AddUint64_def)

lemma Middleware_gate:
  "URL_Path r = Config_Path p \<Longrightarrow> fst (Middleware p r) = [] \<longleftrightarrow> stopped p = 1"
  by (cases "access_answer r"; cases "upgrade_answer r")
     (simp_all add: Middleware_def CompareAndSwapUint64_def Let_def split: prod.splits)

lemma of_nat_eq_1_word64:
  "(of_nat n :: 64 word) = 1 \<longleftrightarrow> n mod 2 ^ 64 = 1"
  using word_of_nat_eq_iff [where ?'a = 64, of n 1] by (simp add: take_bit_eq_mod)

text \<open>
  C10, as the code has it. For a request on the configured path the handler stops at the
  gate, having called no collaborator, exactly when the stopped counter is 1. Stop adds
  one to the counter. So for a hub whose counter is 0, as Init leaves it, the request is
  refused after \<open>n\<close> calls of Stop exactly when \<open>n\<close> is 1 modulo \<open>2 ^ 64\<close>: after one
  call it is refused, after two or more calls it passes the gate again, until the 64-bit
  counter has wrapped around to 1.
\<close>

theorem Middleware_gate_counts_stops:
  assumes "URL_Path r = Config_Path p"
  shows "(fst (Middleware p r) = [] \<longleftrightarrow> stopped p = 1) \<and>
         stopped (snd (snd (Stop p))) = stopped p + 1 \<and>
         (stopped p = 0 \<longrightarrow>
            (fst (Middleware (Stop_times n p) r) = [] \<longleftrightarrow> n mod 2 ^ 64 = 1))"
proof -
  have "URL_Path r = Config_Path (Stop_times n p)"
    using assms by (simp add: Stop_times_fields)
  from Middleware_gate [OF this]
  have "stopped p = 0 \<longrightarrow> (fst (Middleware (Stop_times n p) r) = [] \<longleftrightarrow> n mod 2 ^ 64 = 1)"
    by (simp add: Stop_times_fields of_nat_eq_1_word64)
  with Middleware_gate [OF assms] show ?thesis
    by (simp add: Stop_def AddUint64_def)
qed

theorem Middleware_gate_counts_stops_witness:
  "URL_Path granted_request = Config_Path (Init ''/ws'' :: nat Plugin) \<and>
   stopped (Init ''/ws'' :: nat Plugin) = 0 \<and>
   fst (Middleware (Stop_times 1 (Init ''/ws'' :: nat Plugin)) granted_request) = [] \<and>
   fst (Middleware (Stop_times 2 (Init ''/ws'' :: nat Plugin)) granted_request) \<noteq> []"
proof -
  have on_path: "URL_Path granted_request = Config_Path (Init ''/ws'' :: nat Plugin)"
    by (simp add: granted_request_def Init_def)
  have fresh: "stopped (Init ''/ws'' :: nat Plugin) = 0"
    by (simp add: Init_def)
  from Middleware_gate_counts_stops [OF on_path, of 1]
    Middleware_gate_counts_stops [OF on_path, of 2] on_path fresh
  show ?thesis by simp
qed

text \<open>
  The claim as stated (after two or more Stop calls the counter exceeds 1 and requests
  are served again) fails where the counter wraps: after \<open>2 ^ 64 + 1\<close> calls of Stop on
  a fresh hub the counter is 1 again and the request is refused at the gate.
\<close>

theorem Middleware_gate_wraps_counterexample:
  "(2::nat) \<le> 18446744073709551617 \<and>
   stopped (Stop_times 18446744073709551617 (Init ''/ws'' :: nat Plugin)) = 1 \<and>
   fst (Middleware (Stop_times 18446744073709551617 (Init ''/ws'' :: nat Plugin)) granted_request) = []"
proof -
  have s: "stopped (Stop_times 18446744073709551617 (Init ''/ws'' :: nat Plugin)) = 1"
    by (simp add: Stop_times_fields Init_def)
  have "URL_Path granted_request = Config_Path (Stop_times 18446744073709551617 (Init ''/ws'' :: nat Plugin))"
    by (simp add: Stop_times_fields Init_def granted_request_def)
  from Middleware_gate [OF this] s show ?thesis by simp
qed

lemma Middleware_denied_falls_through:
  assumes "URL_Path r = Config_Path p" and "stopped p \<noteq> 1"
    and "access_answer r = AccessValidatorError av" and "upgrade_answer r = Upgraded c"
  shows "fst (Middleware p r) =
           [AttributesInit, AssertServerAccess, AccessCopy av, Upgrade] @
           fst (serve_connection p r c)"
proof -
  obtain tr2 p2 where sc: "serve_connection p r c = (tr2, p2)"
    by (cases "serve_connection p r c") auto
  with assms show ?thesis
    by (simp add: Middleware_def CompareAndSwapUint64_def Let_def)
qed

text \<open>
  C1 fails on the code. The request is on the configured path, the hub is not stopped,
  and the validator denies access (it returns the \<^verbatim>\<open>*validator.AccessValidator\<close>). The
  handler writes the error response and then, since that branch has no \<^verbatim>\<open>return\<close>, goes
  on: it upgrades the transport, registers the connection and starts the command loop.
\<close>

theorem Middleware_denied_request_is_served:
  "URL_Path denied_request = Config_Path hub \<and> stopped hub \<noteq> 1 \<and>
   access_answer denied_request = AccessValidatorError ''403 forbidden'' \<and>
   fst (Middleware hub denied_request) =
     [AttributesInit, AssertServerAccess, AccessCopy ''403 forbidden'', Upgrade,
      NewConnection 8, ConnectionsStore ''c2'' 8, NewExecutor ''c2'',
      LogInfo_connected ''c2'', StartCommandLoop ''c2'', ExecutorCleanUp ''c2'',
      ConnectionsDelete ''c2'', ConnClose 8]"
  by (simp add: Middleware_def CompareAndSwapUint64_def serve_connection_def Let_def
      denied_request_def hub_def)

subsection \<open>The cleanup of a served connection\<close>

lemma serve_connection_trace:
  "fst (serve_connection p r c) =
     [NewConnection c, ConnectionsStore (new_uuid r) c, NewExecutor (new_uuid r),
      LogInfo_connected (new_uuid r), StartCommandLoop (new_uuid r)] @
     (case command_loop_answer r of Some e \<Rightarrow> [LogError_command_loop e] | None \<Rightarrow> []) @
     [ExecutorCleanUp (new_uuid r), ConnectionsDelete (new_uuid r), ConnClose c] @
     (case close_answer r of Some e \<Rightarrow> [LogError_connection_close e] | None \<Rightarrow> [])"
  by (simp add: serve_connection_def Let_def)

lemma serve_connection_registry:
  "connections (snd (serve_connection p r c)) = (connections p)(new_uuid r := None)"
  by (simp add: serve_connection_def Let_def)

lemma check_access_no_cleanup:
  "filter is_cleanup (fst (check_access a)) = []"
  by (cases a) simp_all

text \<open>
  C8. For every request that reaches a served connection, whatever the command loop
  returns (nil or an error, which is also how a forced closure shows) and whatever the
  close returns: the handler's events after the start of the command loop contain the
  cleanup calls exactly once each and in the order executor CleanUp, removal from the
  connection registry, close of the transport; there is no cleanup call before the
  command loop; and afterwards the connection is no longer registered.
\<close>

theorem Middleware_cleanup_once_in_order:
  assumes "served p r c"
  shows "\<exists>pre post.
           fst (Middleware p r) = pre @ StartCommandLoop (new_uuid r) # post \<and>
           filter is_cleanup pre = [] \<and>
           filter is_cleanup post =
             [ExecutorCleanUp (new_uuid r), ConnectionsDelete (new_uuid r), ConnClose c] \<and>
           connections (snd (Middleware p r)) = (connections p)(new_uuid r := None)"
proof -
  from assms have path: "URL_Path r = Config_Path p" and gate: "stopped p \<noteq> 1"
    and acc: "snd (check_access (access_answer r))" and up: "upgrade_answer r = Upgraded c"
    by (simp_all add: served_def)
  obtain tr1 where ca: "check_access (access_answer r) = (tr1, True)"
    using acc by (cases "check_access (access_answer r)") auto
  obtain tr2 p2 where sc: "serve_connection p r c = (tr2, p2)"
    by (cases "serve_connection p r c") auto
  have run: "Middleware p r = (AttributesInit # AssertServerAccess # tr1 @ Upgrade # tr2, p2)"
    using path gate ca up sc
    by (simp add: Middleware_def CompareAndSwapUint64_def Let_def)
  let ?pre = "AttributesInit # AssertServerAccess # tr1 @
      [Upgrade, NewConnection c, ConnectionsStore (new_uuid r) c, NewExecutor (new_uuid r),
       LogInfo_connected (new_uuid r)]"
  let ?post = "(case command_loop_answer r of Some e \<Rightarrow> [LogError_command_loop e] | None \<Rightarrow> []) @
     [ExecutorCleanUp (new_uuid r), ConnectionsDelete (new_uuid r), ConnClose c] @
     (case close_answer r of Some e \<Rightarrow> [LogError_connection_close e] | None \<Rightarrow> [])"
  from serve_connection_trace [of p r c] sc
  have tr2: "tr2 = [NewConnection c, ConnectionsStore (new_uuid r) c, NewExecutor (new_uuid r),
      LogInfo_connected (new_uuid r), StartCommandLoop (new_uuid r)] @ ?post"
    by simp
  have 1: "fst (Middleware p r) = ?pre @ StartCommandLoop (new_uuid r) # ?post"
    by (simp add: run tr2)
  from check_access_no_cleanup [of "access_answer r"] ca
  have 2: "filter is_cleanup ?pre = []" by simp
  have 3: "filter is_cleanup ?post =
      [ExecutorCleanUp (new_uuid r), ConnectionsDelete (new_uuid r), ConnClose c]"
    by (simp split: option.splits)
  from serve_connection_registry [of p r c] sc
  have 4: "connections (snd (Middleware p r)) = (connections p)(new_uuid r := None)"
    by (simp add: run)
  from 1 2 3 4 show ?thesis by blast
qed

theorem Middleware_cleanup_once_in_order_witness:
  "served hub granted_request 8 \<and>
   fst (Middleware hub granted_request) =
     [AttributesInit, AssertServerAccess, Upgrade, NewConnection 8,
      ConnectionsStore ''c2'' 8, NewExecutor ''c2'', LogInfo_connected ''c2''] @
     StartCommandLoop ''c2'' #
     [LogError_command_loop (Err ''read error''), ExecutorCleanUp ''c2'',
      ConnectionsDelete ''c2'', ConnClose 8] \<and>
   connections (snd (Middleware hub granted_request)) ''c2'' = None \<and>
   connections (snd (Middleware hub granted_request)) ''c1'' = Some 7"
proof -
  have is_served: "served hub granted_request 8"
    by (simp add: served_def granted_request_def hub_def)
  from Middleware_cleanup_once_in_order [OF is_served] is_served
  show ?thesis
    by (simp add: Middleware_def CompareAndSwapUint64_def serve_connection_def Let_def
        granted_request_def hub_def)
qed

section \<open>Properties of Serve\<close>

lemma Next_answer_Suc:
  "Next_answer ps (Suc i) w = Next_answer ps i (snd (ps_Next ps w))"
  by (simp add: Next_answer_def)

lemma receive_loop_runs:
  assumes "\<forall>i<n. \<exists>data. Next_answer ps i w = Inr data"
    and "Next_answer ps n w = Inl err"
  shows "receive_loop ps tr w =
           Some (tr @ concat (map (\<lambda>i. received (Next_answer ps i w)) [0..<n]) @
                   [BrokerNext (Inl err), ErrChSend err],
                 Next_world ps (Suc n) w)"
  using assms
proof (induction n arbitrary: tr w)
  case 0
  then obtain w1 where "ps_Next ps w = (Inl err, w1)"
    by (cases "ps_Next ps w") (auto simp: Next_answer_def)
  then show ?case
    by (subst receive_loop.simps) simp
next
  case (Suc n)
  from Suc.prems(1) obtain data where a0: "Next_answer ps 0 w = Inr data"
    by auto
  then obtain w1 where nx: "ps_Next ps w = (Inr data, w1)"
    by (cases "ps_Next ps w") (auto simp: Next_answer_def)
  have shift: "Next_answer ps (Suc i) w = Next_answer ps i w1" for i
    by (simp add: Next_answer_Suc nx)
  from Suc.prems(1) have p1: "\<forall>i<n. \<exists>data. Next_answer ps i w1 = Inr data"
    using shift by (metis Suc_less_eq)
  from Suc.prems(2) have p2: "Next_answer ps n w1 = Inl err"
    by (simp add: shift)
  have split: "concat (map (\<lambda>i. received (Next_answer ps i w)) [0..<Suc n]) =
      received (Inr data) @ concat (map (\<lambda>i. received (Next_answer ps i w1)) [0..<n])"
  proof -
    have "[0..<Suc n] = 0 # map Suc [0..<n]"
      by (simp add: upt_conv_Cons map_Suc_upt del: upt_Suc)
    then show ?thesis
      by (simp add: a0 shift comp_def del: upt_Suc)
  qed
  have "receive_loop ps tr w = receive_loop ps (tr @ [BrokerNext (Inr data), PoolQueue data]) w1"
    by (subst receive_loop.simps) (simp add: nx)
  also from Suc.IH [OF p1 p2]
  have "\<dots> = Some ((tr @ [BrokerNext (Inr data), PoolQueue data]) @
                   concat (map (\<lambda>i. received (Next_answer ps i w1)) [0..<n]) @
                   [BrokerNext (Inl err), ErrChSend err],
                 Next_world ps (Suc n) w1)" .
  finally show ?case
    by (simp add: split nx del: upt_Suc)
qed

text \<open>
  C9. Serve starts a receive loop for every registered broker and for nothing else. For
  a registered broker whose \<^verbatim>\<open>Next\<close> answers \<open>n\<close> times with a message and then with the
  error \<open>err\<close>: the loop returns; up to then it has queued each of the \<open>n\<close> messages to
  the worker pool; on the error it sends \<open>err\<close> to the hub's error channel as its last
  step; and it has called \<^verbatim>\<open>Next\<close> exactly \<open>n + 1\<close> times, so there is no retry after the
  error. The send does not name the broker: the one channel of the hub gets the error.
  (The loops of different brokers run concurrently and the channel is unbuffered; the
  model follows one loop and records its send, not when a receiver takes it.)
\<close>

theorem Serve_loop_reports_first_error:
  assumes "pubsubs p k = Some ps"
    and "\<forall>i<n. \<exists>data. Next_answer ps i w = Inr data"
    and "Next_answer ps n w = Inl err"
  shows "dom (Serve p) = dom (pubsubs p) \<and>
         (\<exists>loop. Serve p k = Some loop \<and>
            loop w =
              Some (concat (map (\<lambda>i. received (Next_answer ps i w)) [0..<n]) @
                      [BrokerNext (Inl err), ErrChSend err],
                    Next_world ps (Suc n) w))"
proof -
  have "dom (Serve p) = dom (pubsubs p)"
    by (auto simp: Serve_def dom_def)
  moreover have "Serve p k = Some (receive_loop ps [])"
    by (simp add: Serve_def assms(1))
  moreover note receive_loop_runs [OF assms(2,3), of "[]"]
  ultimately show ?thesis by simp
qed

theorem Serve_loop_reports_first_error_witness:
  "pubsubs hub ''memory'' = Some memory_broker \<and>
   Next_answer memory_broker 0 0 = Inr order_msg \<and>
   Next_answer memory_broker 1 0 = Inr ship_msg \<and>
   Next_answer memory_broker 2 0 = Inl (Err ''closed'') \<and>
   (\<exists>loop. Serve hub ''memory'' = Some loop \<and>
      loop 0 =
        Some ([BrokerNext (Inr order_msg), PoolQueue order_msg,
               BrokerNext (Inr ship_msg), PoolQueue ship_msg,
               BrokerNext (Inl (Err ''closed'')), ErrChSend (Err ''closed'')], 3))"
proof -
  have w0: "Next_world memory_broker 0 0 = 0" by simp
  have w1: "Next_world memory_broker 1 0 = 1" by (simp add: memory_broker_def)
  have w2: "Next_world memory_broker 2 0 = 2"
    by (simp add: memory_broker_def numeral_2_eq_2)
  have w3: "Next_world memory_broker (Suc 2) 0 = 3"
    by (simp add: memory_broker_def numeral_2_eq_2 numeral_3_eq_3)
  have a0: "Next_answer memory_broker 0 0 = Inr order_msg"
    by (simp add: Next_answer_def memory_broker_def)
  have a1: "Next_answer memory_broker 1 0 = Inr ship_msg"
    unfolding Next_answer_def w1 by (simp add: memory_broker_def)
  have a2: "Next_answer memory_broker 2 0 = Inl (Err ''closed'')"
    unfolding Next_answer_def w2 by (simp add: memory_broker_def)
  have h1: "pubsubs hub ''memory'' = Some memory_broker" by (simp add: hub_def)
  have h2: "\<forall>i<2. \<exists>data. Next_answer memory_broker i 0 = Inr data"
  proof (intro allI impI)
    fix i :: nat assume "i < 2"
    then have "i = 0 \<or> i = 1" by auto
    with a0 a1 show "\<exists>data. Next_answer memory_broker i 0 = Inr data" by auto
  qed
  have up: "[0..<2] = [0, 1::nat]" by (simp add: upt_rec)
  from Serve_loop_reports_first_error [OF h1 h2 a2]
  show ?thesis using h1 h2 a2 a0 a1 w3 unfolding up
    by (simp del: Next_world.simps)
qed

end
